theory Spec2Isabelle
  imports Complex_Main "HOL-Library.Word"
begin

section \<open>Data model (types.ts)\<close>

text \<open>
  JavaScript numbers that carry times, percentages and pixel sizes are modelled as exact
  reals: the rounding of IEEE-754 doubles, NaN and the infinities are outside this model.
  Where a property turns on the rounding, as the contiguity of the beats after a split
  does, the function is modelled a second time with the rounding of every operation.
  Character offsets, loop indices and clock readings are integers. A string is a list of
  code units; the model covers code units below 256.
\<close>

datatype OverlayType = FULL | SPLIT

record BRollSettings =
  x_pct :: real
  y_pct :: real
  scale :: real
  height :: real
  aRollOffsetY :: "real option"

record BeatStyleConfig =
  themePrompt :: "string option"
  imageCount :: "real option"
  referenceImage :: "string option"
  avatarImage :: "string option"

record Beat =
  idB :: string
  startTime :: real
  endTime :: real
  textSegment :: string
  visualPrompt :: string
  bRollImage :: "string option"
  overlayType :: OverlayType
  isEnabled :: bool
  bRollSettings :: BRollSettings
  bRollOptions :: "string list option"
  styleConfig :: "BeatStyleConfig option"

text \<open>The part of the application state that the beat handlers read and write.\<close>

record AppState =
  beats :: "Beat list"
  status :: string

section \<open>JavaScript library functions used by the handlers\<close>

text \<open>Decimal rendering of a non-negative integer inside a template literal.\<close>

function show_nat :: "nat \<Rightarrow> string" where
  "show_nat n =
     (if n < 10 then [''0123456789'' ! n]
      else show_nat (n div 10) @ [''0123456789'' ! (n mod 10)])"
  by pat_completeness auto
termination
  by (relation "measure (\<lambda>n. n)") auto

declare show_nat.simps [simp del]

text \<open>\<open>Array.prototype.findIndex\<close>; \<open>None\<close> stands for the result \<open>-1\<close>.\<close>

fun findIndex :: "('a \<Rightarrow> bool) \<Rightarrow> 'a list \<Rightarrow> nat option" where
  "findIndex P [] = None"
| "findIndex P (b # bs) = (if P b then Some 0 else map_option Suc (findIndex P bs))"

text \<open>
  \<open>String.prototype.substring\<close> on integer arguments: both ends are clamped to the
  string and swapped when they come in the wrong order.
\<close>

definition substring :: "string \<Rightarrow> int \<Rightarrow> int \<Rightarrow> string" where
  "substring s a b =
     (let n = int (length s);
          a' = max 0 (min a n);
          b' = max 0 (min b n);
          lo = min a' b';
          hi = max a' b'
      in take (nat (hi - lo)) (drop (nat lo) s))"

definition substring_from :: "string \<Rightarrow> int \<Rightarrow> string" where
  "substring_from s a = substring s a (int (length s))"

text \<open>
  \<open>String.prototype.trim\<close> removes white space and line terminators at both ends;
  below 256 these are TAB, LF, VT, FF, CR, SPACE and NBSP.
\<close>

definition isWhiteSpace :: "char \<Rightarrow> bool" where
  "isWhiteSpace c = ((of_char c :: nat) \<in> {9, 10, 11, 12, 13, 32, 160})"

definition trim :: "string \<Rightarrow> string" where
  "trim s = rev (dropWhile isWhiteSpace (rev (dropWhile isWhiteSpace s)))"

text \<open>\<open>Array.prototype.splice(i, 1, ...items)\<close> on a copy of the array.\<close>

definition splice1 :: "nat \<Rightarrow> 'a list \<Rightarrow> 'a list \<Rightarrow> 'a list" where
  "splice1 i items xs = take i xs @ items @ drop (Suc i) xs"

section \<open>handleSplitBeat\<close>

definition defaultSplitSettings :: BRollSettings where
  "defaultSplitSettings =
     \<lparr>x_pct = 0, y_pct = 0, scale = 1, height = 50, aRollOffsetY = Some 50\<rparr>"

definition promptSuffix :: string where
  "promptSuffix = '', photorealistic, 4k, b-roll, cinematic lighting''"

text \<open>The \<open>parts\<close> array: the text before, inside and after the selection, empty outer
  parts left out.\<close>

definition splitParts :: "string \<Rightarrow> int \<Rightarrow> int \<Rightarrow> (string \<times> int) list" where
  "splitParts text startIdx endIdx =
     (let len1 = startIdx;
          len2 = endIdx - startIdx;
          len3 = int (length text) - endIdx
      in (if len1 > 0 then [(substring text 0 startIdx, len1)] else [])
         @ [(substring text startIdx endIdx, len2)]
         @ (if len3 > 0 then [(substring_from text endIdx, len3)] else []))"

text \<open>
  The \<open>for\<close> loop over \<open>parts\<close>. \<open>clock i\<close> is what \<open>Date.now()\<close> returns in
  iteration \<open>i\<close>; \<open>currentStartTime\<close> is the running start time.
\<close>

fun splitLoop ::
  "(nat \<Rightarrow> nat) \<Rightarrow> Beat \<Rightarrow> int \<Rightarrow> real \<Rightarrow> nat \<Rightarrow> real \<Rightarrow> (string \<times> int) list \<Rightarrow> Beat list"
where
  "splitLoop clock originalBeat totalLength totalDuration i currentStartTime [] = []"
| "splitLoop clock originalBeat totalLength totalDuration i currentStartTime ((ptext, plen) # parts) =
     (let partDuration = (of_int plen / of_int totalLength) * totalDuration;
          newBeat = \<lparr>idB = ''beat-'' @ show_nat (clock i) @ ''-'' @ show_nat i,
                     startTime = currentStartTime,
                     endTime = currentStartTime + partDuration,
                     textSegment = trim ptext,
                     visualPrompt = trim ptext @ promptSuffix,
                     bRollImage = None,
                     overlayType = overlayType originalBeat,
                     isEnabled = True,
                     bRollSettings = defaultSplitSettings,
                     bRollOptions = Some [],
                     styleConfig = styleConfig originalBeat\<rparr>
      in newBeat #
         splitLoop clock originalBeat totalLength totalDuration (Suc i)
           (currentStartTime + partDuration) parts)"

text \<open>The beats that replace \<open>originalBeat\<close>, once the range check has passed.\<close>

definition newBeats :: "(nat \<Rightarrow> nat) \<Rightarrow> Beat \<Rightarrow> int \<Rightarrow> int \<Rightarrow> Beat list" where
  "newBeats clock originalBeat startIdx endIdx =
     (let text = textSegment originalBeat;
          totalLength = int (length text);
          totalDuration = endTime originalBeat - startTime originalBeat
      in splitLoop clock originalBeat totalLength totalDuration 0 (startTime originalBeat)
           (splitParts text startIdx endIdx))"

definition handleSplitBeat :: "(nat \<Rightarrow> nat) \<Rightarrow> string \<Rightarrow> int \<Rightarrow> int \<Rightarrow> AppState \<Rightarrow> AppState" where
  "handleSplitBeat clock beatId startIdx endIdx st =
     (case findIndex (\<lambda>b. idB b = beatId) (beats st) of
        None \<Rightarrow> st
      | Some beatIndex \<Rightarrow>
          (let originalBeat = beats st ! beatIndex;
               text = textSegment originalBeat
           in if startIdx < 0 \<or> endIdx > int (length text) \<or> startIdx \<ge> endIdx then st
              else st\<lparr>beats := splice1 beatIndex
                                   (newBeats clock originalBeat startIdx endIdx) (beats st)\<rparr>))"

section \<open>handleMergeBeats\<close>

text \<open>\<open>Array.prototype.join\<close>.\<close>

fun join :: "string \<Rightarrow> string list \<Rightarrow> string" where
  "join sep [] = []"
| "join sep [s] = s"
| "join sep (s # t # ts) = s @ sep @ join sep (t # ts)"

text \<open>\<open>Array.from(new Set(xs))\<close>: a set keeps every element once, in insertion order.\<close>

definition uniq :: "'a list \<Rightarrow> 'a list" where
  "uniq xs = fold (\<lambda>v acc. if v \<in> set acc then acc else acc @ [v]) xs []"

text \<open>\<open>b.bRollOptions || []\<close>.\<close>

definition optionsOf :: "Beat \<Rightarrow> string list" where
  "optionsOf b = (case bRollOptions b of None \<Rightarrow> [] | Some opts \<Rightarrow> opts)"

text \<open>
  The beat built from the selection. \<open>Array.prototype.sort\<close> with the comparator
  \<open>a.startTime - b.startTime\<close> is a stable ascending sort on the start time, as
  \<^const>\<open>sort_key\<close> is. \<open>now\<close> is what \<open>Date.now()\<close> returns. The caller has checked
  that the selection holds two beats at least, so \<open>hd\<close> and \<open>last\<close> read existing
  elements.
\<close>

definition mergedBeat :: "nat \<Rightarrow> Beat list \<Rightarrow> Beat" where
  "mergedBeat now selectedBeats =
     (let sortedBeats = sort_key startTime selectedBeats;
          firstBeat = hd sortedBeats;
          lastBeat = last sortedBeats;
          mergedText = join '' '' (map textSegment sortedBeats);
          allImages = uniq (concat (map optionsOf sortedBeats));
          allImages' = (case bRollImage firstBeat of
                          None \<Rightarrow> allImages
                        | Some url \<Rightarrow>
                            if url \<noteq> [] \<and> url \<notin> set allImages then url # allImages
                            else allImages)
      in \<lparr>idB = ''beat-merged-'' @ show_nat now,
          startTime = startTime firstBeat,
          endTime = endTime lastBeat,
          textSegment = mergedText,
          visualPrompt = visualPrompt firstBeat,
          bRollImage = bRollImage firstBeat,
          overlayType = overlayType firstBeat,
          isEnabled = isEnabled firstBeat,
          bRollSettings = bRollSettings firstBeat,
          bRollOptions = Some allImages',
          styleConfig = styleConfig firstBeat\<rparr>)"

definition handleMergeBeats :: "nat \<Rightarrow> string list \<Rightarrow> AppState \<Rightarrow> AppState" where
  "handleMergeBeats now beatIds st =
     (let selectedBeats = filter (\<lambda>b. idB b \<in> set beatIds) (beats st)
      in if length selectedBeats < 2 then st
         else
           (let remainingBeats = filter (\<lambda>b. idB b \<notin> set beatIds) (beats st);
                newBeatsList =
                  sort_key startTime (remainingBeats @ [mergedBeat now selectedBeats])
            in st\<lparr>beats := newBeatsList,
                  status := ''Merged '' @ show_nat (length selectedBeats) @ '' beats.''\<rparr>))"

section \<open>The partition properties of a beat list\<close>

text \<open>Each beat's end time is the next beat's start time.\<close>

fun contiguous :: "Beat list \<Rightarrow> bool" where
  "contiguous (a # b # bs) = (endTime a = startTime b \<and> contiguous (b # bs))"
| "contiguous _ = True"

text \<open>The list is in ascending order of start time.\<close>

definition ordered :: "Beat list \<Rightarrow> bool" where
  "ordered bs = sorted (map startTime bs)"



text \<open>Every beat satisfies the data model's invariant \<open>startTime < endTime\<close>.\<close>

definition positiveDurations :: "Beat list \<Rightarrow> bool" where
  "positiveDurations bs = list_all (\<lambda>b. startTime b < endTime b) bs"


section \<open>handleSplitBeat in floating-point arithmetic\<close>

text \<open>
  The source computes the times of the new beats in IEEE-754 doubles: every operation
  gives the exact result rounded to a double. The definitions below are those of
  \<open>handleSplitBeat\<close> again, with the rounding \<open>fl\<close> applied to the result of each of the
  four operations of the loop. What holds for every \<open>fl\<close> holds for the program; with
  the identity for \<open>fl\<close> these are the exact definitions above.
\<close>

fun splitLoopFl ::
  "(real \<Rightarrow> real) \<Rightarrow> (nat \<Rightarrow> nat) \<Rightarrow> Beat \<Rightarrow> int \<Rightarrow> real \<Rightarrow> nat \<Rightarrow> real
     \<Rightarrow> (string \<times> int) list \<Rightarrow> Beat list"
where
  "splitLoopFl fl clock originalBeat totalLength totalDuration i currentStartTime [] = []"
| "splitLoopFl fl clock originalBeat totalLength totalDuration i currentStartTime
     ((ptext, plen) # parts) =
     (let partDuration = fl (fl (of_int plen / of_int totalLength) * totalDuration);
          newBeat = \<lparr>idB = ''beat-'' @ show_nat (clock i) @ ''-'' @ show_nat i,
                     startTime = currentStartTime,
                     endTime = fl (currentStartTime + partDuration),
                     textSegment = trim ptext,
                     visualPrompt = trim ptext @ promptSuffix,
                     bRollImage = None,
                     overlayType = overlayType originalBeat,
                     isEnabled = True,
                     bRollSettings = defaultSplitSettings,
                     bRollOptions = Some [],
                     styleConfig = styleConfig originalBeat\<rparr>
      in newBeat #
         splitLoopFl fl clock originalBeat totalLength totalDuration (Suc i)
           (fl (currentStartTime + partDuration)) parts)"

definition newBeatsFl ::
  "(real \<Rightarrow> real) \<Rightarrow> (nat \<Rightarrow> nat) \<Rightarrow> Beat \<Rightarrow> int \<Rightarrow> int \<Rightarrow> Beat list"
where
  "newBeatsFl fl clock originalBeat startIdx endIdx =
     (let text = textSegment originalBeat;
          totalLength = int (length text);
          totalDuration = fl (endTime originalBeat - startTime originalBeat)
      in splitLoopFl fl clock originalBeat totalLength totalDuration 0 (startTime originalBeat)
           (splitParts text startIdx endIdx))"

definition handleSplitBeatFl ::
  "(real \<Rightarrow> real) \<Rightarrow> (nat \<Rightarrow> nat) \<Rightarrow> string \<Rightarrow> int \<Rightarrow> int \<Rightarrow> AppState \<Rightarrow> AppState"
where
  "handleSplitBeatFl fl clock beatId startIdx endIdx st =
     (case findIndex (\<lambda>b. idB b = beatId) (beats st) of
        None \<Rightarrow> st
      | Some beatIndex \<Rightarrow>
          (let originalBeat = beats st ! beatIndex;
               text = textSegment originalBeat
           in if startIdx < 0 \<or> endIdx > int (length text) \<or> startIdx \<ge> endIdx then st
              else st\<lparr>beats := splice1 beatIndex
                                   (newBeatsFl fl clock originalBeat startIdx endIdx)
                                   (beats st)\<rparr>))"

text \<open>
  Rounding to the nearest double, ties to even, for a real within the range of the
  doubles. \<open>binade n x 0\<close> is the exponent \<open>e\<close> with \<open>2 ^ e \<le> x < 2 ^ (e + 1)\<close>, found in
  at most \<open>n\<close> steps; a double has 53 significant bits, and the exponent of a subnormal
  number is \<open>-1022\<close>. \<open>ulpAt e\<close> is the distance between neighbouring doubles at the
  exponent \<open>e\<close>.
\<close>

fun binade :: "nat \<Rightarrow> real \<Rightarrow> int \<Rightarrow> int" where
  "binade 0 v e = e"
| "binade (Suc n) v e =
     (if 2 \<le> v then binade n (v / 2) (e + 1)
      else if v < 1 then binade n (v * 2) (e - 1)
      else e)"

definition roundTiesEven :: "real \<Rightarrow> int" where
  "roundTiesEven v =
     (let f = \<lfloor>v\<rfloor>;
          r = v - of_int f
      in if r < 1 / 2 then f
         else if 1 / 2 < r then f + 1
         else if even f then f else f + 1)"

definition ulpAt :: "int \<Rightarrow> real" where
  "ulpAt e = (if 52 \<le> e then 2 ^ nat (e - 52) else 1 / 2 ^ nat (52 - e))"

definition expo :: "real \<Rightarrow> int" where
  "expo v = max (binade 2100 \<bar>v\<bar> 0) (- 1022)"

definition toDouble :: "real \<Rightarrow> real" where
  "toDouble v =
     (if v = 0 then 0
      else of_int (roundTiesEven (v / ulpAt (expo v))) * ulpAt (expo v))"

section \<open>handleAnalyzeBeats\<close>

text \<open>\<open>String.prototype.split(' ')\<close>: the pieces between single spaces, empty ones kept.\<close>

fun splitOnSpace :: "string \<Rightarrow> string list" where
  "splitOnSpace [] = [[]]"
| "splitOnSpace (c # cs) =
     (if c = CHR '' '' then [] # splitOnSpace cs
      else (case splitOnSpace cs of
              [] \<Rightarrow> [[c]]
            | t # ts \<Rightarrow> (c # t) # ts))"

text \<open>
  The callback of \<open>beats.map\<close> with its captured variable \<open>currentT\<close>, which every call
  advances by the duration it has assigned.
\<close>

fun assignTimes :: "real \<Rightarrow> Beat list \<Rightarrow> Beat list" where
  "assignTimes currentT [] = []"
| "assignTimes currentT (beat # rest) =
     (let wordCount = length (splitOnSpace (textSegment beat));
          dur = max 2 (real wordCount / 2.5);
          b = beat\<lparr>startTime := currentT, endTime := currentT + dur\<rparr>
      in b # assignTimes (currentT + dur) rest)"



section \<open>audioBufferToWav: the sample data\<close>

text \<open>\<open>Math.max(-1, Math.min(1, v))\<close>.\<close>

definition clampSample :: "real \<Rightarrow> real" where
  "clampSample v = max (- 1) (min 1 v)"

text \<open>
  \<open>v | 0\<close>: the number is truncated towards zero and then wrapped into the signed 32-bit
  range.
\<close>

definition toInt32 :: "real \<Rightarrow> int" where
  "toInt32 v =
     (let t = (if v < 0 then \<lceil>v\<rceil> else \<lfloor>v\<rfloor>)
      in (t + 2 ^ 31) mod 2 ^ 32 - 2 ^ 31)"

text \<open>The two assignments to \<open>sample\<close> in the inner loop.\<close>

definition quantize :: "real \<Rightarrow> int" where
  "quantize v =
     (let sample = clampSample v
      in toInt32 (if 0.5 + sample < 0 then sample * 32768 else sample * 32767))"

text \<open>\<open>DataView.prototype.setInt16\<close> stores the low 16 bits of the integer.\<close>

definition setInt16 :: "int \<Rightarrow> 16 word" where
  "setInt16 n = word_of_int n"

text \<open>
  The variable \<open>pos\<close> counts the bytes of the header while the header is written: it is
  44 when the loop over the samples begins, and the loop goes on counting from there.
\<close>

definition headerEnd :: nat where
  "headerEnd = 4 + 4 + 4 + 4 + 4 + 2 + 2 + 4 + 4 + 2 + 2 + 4 + 4"

text \<open>
  The nested loop: for every position from \<open>pos\<close> up to \<open>buffer.length\<close>, one 16-bit
  value for each channel in turn, written one after the other behind the header.
  \<open>bufferLength\<close> is \<open>buffer.length\<close>, the length of every channel's data.
\<close>

definition interleave :: "real list list \<Rightarrow> nat \<Rightarrow> 16 word list" where
  "interleave channels bufferLength =
     concat (map (\<lambda>pos. map (\<lambda>channel. setInt16 (quantize (channel ! pos))) channels)
                 [headerEnd..<bufferLength])"

section \<open>renderVideoToBlob: the crop of the A-roll in split mode\<close>

text \<open>The source rectangle \<open>(sX, sY, sW, sH)\<close> handed to \<open>drawImage\<close>.\<close>

record CropRect =
  cropX :: real
  cropY :: real
  cropW :: real
  cropH :: real

text \<open>
  The computation of the rectangle from the video's size, the target area
  \<open>width \<times> aRollH\<close> and the pan percentage. Divisions are exact; the theorems take
  the dimensions positive, where no division by zero occurs.
\<close>

definition coverCrop :: "real \<Rightarrow> real \<Rightarrow> real \<Rightarrow> real \<Rightarrow> real \<Rightarrow> CropRect" where
  "coverCrop videoWidth videoHeight width aRollH aRollOffsetY' =
     (let videoRatio = videoWidth / videoHeight;
          targetRatio = width / aRollH
      in if videoRatio > targetRatio then
           (let sH = videoHeight;
                sW = sH * targetRatio
            in \<lparr>cropX = (videoWidth - sW) / 2, cropY = 0, cropW = sW, cropH = sH\<rparr>)
         else
           (let sW = videoWidth;
                sH = sW / targetRatio
            in \<lparr>cropX = 0, cropY = (videoHeight - sH) * (aRollOffsetY' / 100),
                cropW = sW, cropH = sH\<rparr>))"

text \<open>
  The target area and the pan of the active beat: \<open>bRollSettings.height || 50\<close> percent
  of the canvas go to the B-roll, the rest to the A-roll; the pan is
  \<open>bRollSettings.aRollOffsetY ?? 50\<close>.
\<close>

definition splitHPercent :: "Beat \<Rightarrow> real" where
  "splitHPercent b = (if height (bRollSettings b) = 0 then 50 else height (bRollSettings b))"

definition panPercent :: "Beat \<Rightarrow> real" where
  "panPercent b = (case aRollOffsetY (bRollSettings b) of None \<Rightarrow> 50 | Some p \<Rightarrow> p)"

definition aRollCrop :: "real \<Rightarrow> real \<Rightarrow> real \<Rightarrow> real \<Rightarrow> Beat \<Rightarrow> CropRect" where
  "aRollCrop width canvasHeight videoWidth videoHeight currentBeat =
     (let splitPixelH = canvasHeight * (splitHPercent currentBeat / 100);
          aRollH = canvasHeight - splitPixelH
      in coverCrop videoWidth videoHeight width aRollH (panPercent currentBeat))"

section \<open>renderVideoToBlob: progress reports\<close>

text \<open>
  What a callback reads from the video element, and the two callbacks that report
  progress: \<open>renderFrame\<close>, called for a frame, and \<open>video.onended\<close>. The state is
  whether the media recorder is active, and the values passed to \<open>onProgress\<close> so far.
\<close>

record VideoReading =
  paused :: bool
  ended :: bool
  currentTime :: real
  duration :: real

record ExportState =
  recording :: bool
  reported :: "real list"

datatype Event = Frame VideoReading | Ended

definition exportStart :: ExportState where
  "exportStart = \<lparr>recording = True, reported = []\<rparr>"

definition renderFrame :: "VideoReading \<Rightarrow> ExportState \<Rightarrow> ExportState" where
  "renderFrame video st =
     (if \<not> recording st then st
      else if paused video \<and> \<not> ended video then st
      else if duration video > 0 then
        st\<lparr>reported := reported st @ [min 0.99 (currentTime video / duration video)]\<rparr>
      else st)"

definition onended :: "ExportState \<Rightarrow> ExportState" where
  "onended st =
     (if recording st then st\<lparr>recording := False, reported := reported st @ [1]\<rparr>
      else st)"

fun handleEvent :: "Event \<Rightarrow> ExportState \<Rightarrow> ExportState" where
  "handleEvent (Frame video) st = renderFrame video st"
| "handleEvent Ended st = onended st"

definition runExport :: "Event list \<Rightarrow> ExportState \<Rightarrow> ExportState" where
  "runExport events st = fold handleEvent events st"

text \<open>The readings of the frames of a trace, in order.\<close>

fun readings :: "Event list \<Rightarrow> VideoReading list" where
  "readings [] = []"
| "readings (Frame video # events) = video # readings events"
| "readings (Ended # events) = readings events"

text \<open>
  Playback runs forward: the frames of a trace read a current time that never decreases,
  and the one duration \<open>d\<close> of the loaded video.
\<close>

definition playsForward :: "real \<Rightarrow> Event list \<Rightarrow> bool" where
  "playsForward d events =
     (sorted (map currentTime (readings events))
      \<and> list_all (\<lambda>video. duration video = d) (readings events))"

text \<open>
  The values that the frames of a trace report while the recorder is active, for a video
  of duration \<open>d\<close>.
\<close>

definition frameValues :: "real \<Rightarrow> VideoReading list \<Rightarrow> real list" where
  "frameValues d rs =
     (if d > 0
      then map (\<lambda>video. min 0.99 (currentTime video / d))
             (filter (\<lambda>video. \<not> (paused video \<and> \<not> ended video)) rs)
      else [])"

section \<open>Sample values\<close>

definition scenarioBeat :: Beat where
  "scenarioBeat =
     \<lparr>idB = ''b1'', startTime = 0, endTime = 10, textSegment = ''ABCDEFGHIJ'',
      visualPrompt = ''letters'', bRollImage = Some ''img-1'', overlayType = SPLIT,
      isEnabled = False,
      bRollSettings = \<lparr>x_pct = 10, y_pct = -5, scale = 2, height = 30, aRollOffsetY = Some 20\<rparr>,
      bRollOptions = Some [''img-1'', ''img-2''],
      styleConfig = Some \<lparr>themePrompt = Some ''noir'', imageCount = None,
                            referenceImage = None, avatarImage = None\<rparr>\<rparr>"

definition helloBeat :: Beat where
  "helloBeat = scenarioBeat\<lparr>idB := ''b2'', textSegment := ''Hello World''\<rparr>"

text \<open>Three beats that partition \<open>[0, 3)\<close>, and three beats of which two are empty.\<close>

definition beatAt :: "string \<Rightarrow> real \<Rightarrow> real \<Rightarrow> string \<Rightarrow> Beat" where
  "beatAt i s e t = scenarioBeat\<lparr>idB := i, startTime := s, endTime := e, textSegment := t\<rparr>"

definition threeBeats :: "Beat list" where
  "threeBeats = [beatAt ''a'' 0 1 ''one'', beatAt ''b'' 1 2 ''two'', beatAt ''c'' 2 3 ''three'']"

definition emptyBeats :: "Beat list" where
  "emptyBeats = [beatAt ''a'' 0 0 ''one'', beatAt ''b'' 0 0 ''two'', beatAt ''c'' 0 1 ''three'']"

text \<open>An export of a video of four seconds: three frames, the end of the media, a late frame.\<close>

definition frameAt :: "real \<Rightarrow> bool \<Rightarrow> bool \<Rightarrow> Event" where
  "frameAt t p e = Frame \<lparr>paused = p, ended = e, currentTime = t, duration = 4\<rparr>"

definition sampleFrames :: "Event list" where
  "sampleFrames = [frameAt 1 False False, frameAt 2 True False, frameAt 4 False True]"

text \<open>One channel of 47 frames: 44 frames of \<open>0.5\<close>, then the samples \<open>-0.25\<close>, \<open>1.5\<close> and \<open>-0.75\<close>.\<close>

definition sampleChannel :: "real list" where
  "sampleChannel = replicate 44 (1 / 2) @ [- 1 / 4, 3 / 2, - 3 / 4]"


section \<open>Properties of handleSplitBeat\<close>

subsection \<open>The loop and the parts array\<close>

lemma splitLoop_text:
  "map textSegment (splitLoop clock ob tlen tdur i cst parts) = map (\<lambda>p. trim (fst p)) parts"
  by (induction parts arbitrary: i cst) (auto simp: Let_def)


lemma splitLoop_fields:
  "c \<in> set (splitLoop clock ob tlen tdur i cst parts) \<Longrightarrow>
     isEnabled c \<and> bRollSettings c = defaultSplitSettings \<and> bRollImage c = None
     \<and> bRollOptions c = Some [] \<and> overlayType c = overlayType ob \<and> styleConfig c = styleConfig ob"
  by (induction parts arbitrary: i cst) (auto simp: Let_def)

lemma splitLoop_indep:
  "overlayType ob' = overlayType ob \<Longrightarrow> styleConfig ob' = styleConfig ob \<Longrightarrow>
   splitLoop clock ob' tlen tdur i cst parts = splitLoop clock ob tlen tdur i cst parts"
  by (induction parts arbitrary: i cst) (auto simp: Let_def)

lemma splitParts_kept:
  assumes "0 \<le> s" "s < e" "e \<le> int (length text)"
  shows "splitParts text s e = map (\<lambda>p. (p, int (length p)))
           (filter (\<lambda>p. p \<noteq> [])
              [take (nat s) text, take (nat (e - s)) (drop (nat s) text), drop (nat e) text])"
  using assms
  by (auto simp: splitParts_def substring_def substring_from_def Let_def min_def max_def)

lemma splitParts_nonempty: "splitParts text s e \<noteq> []"
  by (simp add: splitParts_def Let_def)

lemma handleSplitBeat_beats:
  assumes "findIndex (\<lambda>b. idB b = beatId) (beats st) = Some k"
      and "0 \<le> s" "s < e" "e \<le> int (length (textSegment (beats st ! k)))"
  shows "beats (handleSplitBeat clock beatId s e st)
           = take k (beats st) @ newBeats clock (beats st ! k) s e @ drop (Suc k) (beats st)"
  using assms by (simp add: handleSplitBeat_def splice1_def Let_def)

lemma newBeats_text:
  assumes "0 \<le> s" "s < e" "e \<le> int (length (textSegment ob))"
  shows "map textSegment (newBeats clock ob s e) = map trim
           (filter (\<lambda>p. p \<noteq> [])
              [take (nat s) (textSegment ob), take (nat (e - s)) (drop (nat s) (textSegment ob)),
               drop (nat e) (textSegment ob)])"
  unfolding newBeats_def Let_def splitLoop_text splitParts_kept [OF assms]
  by (simp add: comp_def)


lemma newBeats_nonempty: "newBeats clock ob s e \<noteq> []"
proof -
  obtain p ps where "splitParts (textSegment ob) s e = p # ps"
    using splitParts_nonempty by (cases "splitParts (textSegment ob) s e") auto
  then show ?thesis
    by (cases p) (simp add: newBeats_def Let_def)
qed

subsection \<open>Proportional durations\<close>



subsection \<open>Fields of the children\<close>

text \<open>
  Claim C9. Every child beat of a split is enabled and has the bRollSettings
  \<open>{x: 0, y: 0, scale: 1, height: 50, aRollOffsetY: 50}\<close>, whatever the original's
  isEnabled and bRollSettings were; overlayType and styleConfig are the original's. The
  children do not depend on the original's id, visualPrompt, bRollImage, isEnabled,
  bRollSettings or bRollOptions at all.
\<close>

theorem split_children_reset:
  assumes "findIndex (\<lambda>b. idB b = beatId) (beats st) = Some k"
      and "0 \<le> s" and "s < e" and "e \<le> int (length (textSegment (beats st ! k)))"
  shows "let orig = beats st ! k;
             children = newBeats clock orig s e
         in beats (handleSplitBeat clock beatId s e st)
              = take k (beats st) @ children @ drop (Suc k) (beats st)
          \<and> children \<noteq> []
          \<and> (\<forall>c \<in> set children.
                isEnabled c = True
              \<and> bRollSettings c
                  = \<lparr>x_pct = 0, y_pct = 0, scale = 1, height = 50, aRollOffsetY = Some 50\<rparr>
              \<and> overlayType c = overlayType orig
              \<and> styleConfig c = styleConfig orig)
          \<and> newBeats clock
               (orig\<lparr>idB := i', visualPrompt := vp', bRollImage := img', isEnabled := en',
                      bRollSettings := bs', bRollOptions := opts'\<rparr>) s e
              = children"
proof -
  have a: "beats (handleSplitBeat clock beatId s e st)
              = take k (beats st) @ newBeats clock (beats st ! k) s e @ drop (Suc k) (beats st)"
    by (rule handleSplitBeat_beats [OF assms])
  have b: "isEnabled c = True
              \<and> bRollSettings c
                  = \<lparr>x_pct = 0, y_pct = 0, scale = 1, height = 50, aRollOffsetY = Some 50\<rparr>
              \<and> overlayType c = overlayType (beats st ! k)
              \<and> styleConfig c = styleConfig (beats st ! k)"
    if "c \<in> set (newBeats clock (beats st ! k) s e)" for c
    using splitLoop_fields [OF that [unfolded newBeats_def Let_def]]
    by (simp add: defaultSplitSettings_def)
  have c: "newBeats clock
               ((beats st ! k)\<lparr>idB := i', visualPrompt := vp', bRollImage := img', isEnabled := en',
                      bRollSettings := bs', bRollOptions := opts'\<rparr>) s e
              = newBeats clock (beats st ! k) s e"
    unfolding newBeats_def Let_def
    by (simp, rule splitLoop_indep) simp_all
  show ?thesis
    unfolding Let_def using a b c newBeats_nonempty by blast
qed

theorem split_children_reset_witness:
  "let children = beats (handleSplitBeat (\<lambda>i. 1700000000000) ''b1'' 3 6
                           \<lparr>beats = [scenarioBeat], status = ''''\<rparr>)
   in isEnabled scenarioBeat = False
    \<and> bRollSettings scenarioBeat
        = \<lparr>x_pct = 10, y_pct = -5, scale = 2, height = 30, aRollOffsetY = Some 20\<rparr>
    \<and> length children = 3
    \<and> map isEnabled children = [True, True, True]
    \<and> map bRollSettings children
        = replicate 3 \<lparr>x_pct = 0, y_pct = 0, scale = 1, height = 50, aRollOffsetY = Some 50\<rparr>
    \<and> map overlayType children = [SPLIT, SPLIT, SPLIT]
    \<and> map styleConfig children = replicate 3 (styleConfig scenarioBeat)"
proof -
  let ?st = "\<lparr>beats = [scenarioBeat], status = ''''\<rparr>"
  let ?clock = "\<lambda>i::nat. 1700000000000::nat"
  have len: "length (newBeats ?clock scenarioBeat 3 6) = 3"
    by (simp add: newBeats_def splitParts_def Let_def scenarioBeat_def)
  then obtain c1 c2 c3 where cs: "newBeats ?clock scenarioBeat 3 6 = [c1, c2, c3]"
    by (auto simp: length_Suc_conv numeral_3_eq_3)
  show ?thesis
    using split_children_reset [of "''b1''" ?st 0 3 6 ?clock] cs
    by (simp add: Let_def scenarioBeat_def numeral_3_eq_3)
qed

subsection \<open>Trimmed text segments\<close>

text \<open>
  Claim C10. The textSegment of each child of a split is the trimmed form of its piece of
  the original textSegment. White space at a split boundary is therefore lost: splitting
  \<open>Hello World\<close> at offsets \<open>(0, 5)\<close> gives the texts \<open>Hello\<close> and \<open>World\<close>, whose
  concatenation is not the original text.
\<close>

theorem split_children_trimmed:
  assumes "findIndex (\<lambda>b. idB b = beatId) (beats st) = Some k"
      and "0 \<le> s" and "s < e" and "e \<le> int (length (textSegment (beats st ! k)))"
  shows "let orig = beats st ! k;
             text = textSegment orig;
             children = newBeats clock orig s e
         in beats (handleSplitBeat clock beatId s e st)
              = take k (beats st) @ children @ drop (Suc k) (beats st)
          \<and> map textSegment children
              = map trim (filter (\<lambda>p. p \<noteq> [])
                  [take (nat s) text, take (nat (e - s)) (drop (nat s) text), drop (nat e) text])
          \<and> (text = ''Hello World'' \<and> s = 0 \<and> e = 5 \<longrightarrow>
                map textSegment children = [''Hello'', ''World'']
              \<and> concat (map textSegment children) \<noteq> text)"
proof -
  have rng: "0 \<le> s" "s < e" "e \<le> int (length (textSegment (beats st ! k)))"
    using assms by simp_all
  note a = handleSplitBeat_beats [OF assms, of clock]
  note b = newBeats_text [OF rng, of clock]
  have c: "map textSegment (newBeats clock (beats st ! k) s e) = [''Hello'', ''World'']"
    if "textSegment (beats st ! k) = ''Hello World''" "s = 0" "e = 5"
    unfolding b using that by (simp add: trim_def isWhiteSpace_def)
  show ?thesis
    unfolding Let_def using a b c by auto
qed

theorem split_children_trimmed_witness:
  "map textSegment
     (beats (handleSplitBeat (\<lambda>i. 1700000000000) ''b2'' 0 5
               \<lparr>beats = [helloBeat], status = ''''\<rparr>))
   = [''Hello'', ''World'']
   \<and> textSegment helloBeat = ''Hello World''"
  using split_children_trimmed
          [of "''b2''" "\<lparr>beats = [helloBeat], status = ''''\<rparr>" 0 0 5 "\<lambda>i. 1700000000000"]
  by (simp add: Let_def helloBeat_def scenarioBeat_def trim_def isWhiteSpace_def)

section \<open>The partition properties under split and merge\<close>

subsection \<open>Chains of contiguous beats\<close>

lemma contiguous_Cons:
  "contiguous (b # bs) = (contiguous bs \<and> (bs \<noteq> [] \<longrightarrow> endTime b = startTime (hd bs)))"
  by (cases bs) auto


lemma chain_later_starts:
  assumes "contiguous (b # bs)" and "list_all (\<lambda>c. startTime c \<le> endTime c) bs"
  shows "list_all (\<lambda>c. endTime b \<le> startTime c) bs"
  using assms
proof (induction bs arbitrary: b)
  case Nil
  show ?case by simp
next
  case (Cons c cs)
  from Cons.prems have eq: "endTime b = startTime c" and cont: "contiguous (c # cs)"
    and wf: "startTime c \<le> endTime c" and wfs: "list_all (\<lambda>c. startTime c \<le> endTime c) cs"
    by simp_all
  from Cons.IH [OF cont wfs] have "list_all (\<lambda>d. endTime c \<le> startTime d) cs" .
  then have "list_all (\<lambda>d. endTime b \<le> startTime d) cs"
    using eq wf by (auto simp: list_all_iff)
  with eq show ?case by simp
qed

lemma chain_ordered:
  assumes "contiguous bs" and "list_all (\<lambda>c. startTime c \<le> endTime c) bs"
  shows "ordered bs"
  using assms
proof (induction bs)
  case Nil
  show ?case by (simp add: ordered_def)
next
  case (Cons b bs)
  from Cons.prems have wf: "startTime b \<le> endTime b"
    and wfs: "list_all (\<lambda>c. startTime c \<le> endTime c) bs" and cont: "contiguous bs"
    by (simp_all add: contiguous_Cons)
  from chain_later_starts [OF Cons.prems(1) wfs] wf
  have "\<forall>c \<in> set bs. startTime b \<le> startTime c"
    by (auto simp: list_all_iff)
  with Cons.IH [OF cont wfs] show ?case
    by (simp add: ordered_def)
qed




lemma positiveDurations_append [simp]:
  "positiveDurations (xs @ ys) = (positiveDurations xs \<and> positiveDurations ys)"
  by (simp add: positiveDurations_def)

lemma splitLoop_Nil_iff [simp]: "(splitLoop clock ob tlen tdur i cst parts = []) = (parts = [])"
  by (cases parts) (auto simp: Let_def)

lemma splitLoop_hd_start:
  "parts \<noteq> [] \<Longrightarrow> startTime (hd (splitLoop clock ob tlen tdur i cst parts)) = cst"
  by (cases parts) (auto simp: Let_def)

lemma splitLoop_contiguous: "contiguous (splitLoop clock ob tlen tdur i cst parts)"
proof (induction parts arbitrary: i cst)
  case Nil
  show ?case by simp
next
  case (Cons p ps)
  obtain t l where p: "p = (t, l)" by (cases p)
  show ?case
    using Cons.IH splitLoop_hd_start [of ps]
    by (simp add: p Let_def contiguous_Cons)
qed

lemma splitLoop_last_end:
  "parts \<noteq> [] \<Longrightarrow>
   endTime (last (splitLoop clock ob tlen tdur i cst parts))
     = cst + (\<Sum>p\<leftarrow>parts. (of_int (snd p) / of_int tlen) * tdur)"
proof (induction parts arbitrary: i cst)
  case Nil
  then show ?case by simp
next
  case (Cons p ps)
  obtain t l where p: "p = (t, l)" by (cases p)
  show ?case
  proof (cases "ps = []")
    case True
    then show ?thesis by (simp add: p Let_def)
  next
    case False
    with Cons.IH [OF False] show ?thesis
      by (simp add: p Let_def algebra_simps)
  qed
qed

lemma splitParts_sum:
  assumes "0 \<le> s" "s < e" "e \<le> int (length text)"
  shows "(\<Sum>p\<leftarrow>splitParts text s e. snd p) = int (length text)"
    and "\<forall>p \<in> set (splitParts text s e). 0 < snd p"
  using assms by (auto simp: splitParts_def Let_def)

subsection \<open>Exact arithmetic: the children of a split cover the original beat\<close>

text \<open>
  In exact arithmetic the durations of the parts add up to the duration of the original
  beat, so the last child ends where the original ends. The program adds rounded
  durations, and need not arrive there; see the counterexample of claim C2.
\<close>

lemma sum_list_scale:
  "(\<Sum>p\<leftarrow>parts. (of_int (snd p) / of_int tlen) * tdur)
     = (of_int (\<Sum>p\<leftarrow>parts. snd p) / of_int tlen) * (tdur::real)"
  by (induction parts) (simp_all add: algebra_simps add_divide_distrib)

lemma newBeats_cover:
  assumes "0 \<le> s" "s < e" "e \<le> int (length (textSegment ob))"
  shows "startTime (hd (newBeats clock ob s e)) = startTime ob"
    and "endTime (last (newBeats clock ob s e)) = endTime ob"
    and "contiguous (newBeats clock ob s e)"
proof -
  have ne: "splitParts (textSegment ob) s e \<noteq> []"
    by (rule splitParts_nonempty)
  have len: "0 < int (length (textSegment ob))"
    using assms by linarith
  show "startTime (hd (newBeats clock ob s e)) = startTime ob"
    unfolding newBeats_def Let_def by (rule splitLoop_hd_start [OF ne])
  show "endTime (last (newBeats clock ob s e)) = endTime ob"
    unfolding newBeats_def Let_def splitLoop_last_end [OF ne] sum_list_scale
      splitParts_sum(1) [OF assms]
    using len by simp
  show "contiguous (newBeats clock ob s e)"
    unfolding newBeats_def Let_def by (rule splitLoop_contiguous)
qed


subsection \<open>Merging consecutive beats\<close>





lemma mergedBeat_times_sorted:
  assumes "sorted (map startTime sel)"
  shows "startTime (mergedBeat now sel) = startTime (hd sel)"
    and "endTime (mergedBeat now sel) = endTime (last sel)"
  using sort_key_id_if_sorted [OF assms]
  by (simp_all add: mergedBeat_def Let_def)




section \<open>Properties of the rounding to a double\<close>

subsection \<open>Powers of two\<close>


lemma powi_pos: "0 < (2::real) powi k"
  by simp


lemma powi_pred: "(2::real) powi (k - 1) = 2 powi k / 2"
  by (simp add: power_int_diff)




subsection \<open>The exponent\<close>






subsection \<open>Rounding to an integer\<close>







subsection \<open>The exponent of a double\<close>






lemma expo_minus [simp]: "expo (- v) = expo v"
  by (simp add: expo_def)

subsection \<open>Rounding to a double\<close>

lemma toDouble_zero [simp]: "toDouble 0 = 0"
  by (simp add: toDouble_def)














section \<open>handleSplitBeat in floating-point arithmetic: properties\<close>

text \<open>With the identity for the rounding, the definitions are the exact ones.\<close>

lemma splitLoopFl_exact:
  "splitLoopFl (\<lambda>v. v) clock ob tlen tdur i cst parts = splitLoop clock ob tlen tdur i cst parts"
  by (induction parts arbitrary: i cst) (auto simp: Let_def)

lemma newBeatsFl_exact: "newBeatsFl (\<lambda>v. v) clock ob s e = newBeats clock ob s e"
  by (simp add: newBeatsFl_def newBeats_def splitLoopFl_exact)

lemma handleSplitBeatFl_exact:
  "handleSplitBeatFl (\<lambda>v. v) clock beatId s e st = handleSplitBeat clock beatId s e st"
  unfolding handleSplitBeatFl_def handleSplitBeat_def newBeatsFl_exact by (rule refl)

text \<open>What holds of the children for every rounding.\<close>

lemma splitLoopFl_Nil_iff [simp]:
  "(splitLoopFl fl clock ob tlen tdur i cst parts = []) = (parts = [])"
  by (cases parts) (auto simp: Let_def)








subsection \<open>Evaluating the handlers on the sample beats\<close>

lemmas eval_defs = threeBeats_def emptyBeats_def beatAt_def scenarioBeat_def
  handleMergeBeats_def mergedBeat_def Let_def optionsOf_def uniq_def show_nat.simps
  handleSplitBeat_def newBeats_def splitParts_def substring_def substring_from_def
  splice1_def trim_def isWhiteSpace_def defaultSplitSettings_def






subsection \<open>Split and merge on a partition\<close>




section \<open>Properties of handleMergeBeats\<close>

subsection \<open>The merged beat\<close>

lemma hd_sort_key_Min:
  assumes "xs \<noteq> []"
  shows "f (hd (sort_key f xs)) = Min (f ` set xs)"
proof -
  let ?ys = "sort_key f xs"
  have ne: "?ys \<noteq> []" using assms by (metis length_sort list.size(3) length_0_conv)
  then obtain y ys where ys: "?ys = y # ys" by (cases ?ys) auto
  have "sorted (map f ?ys)" by simp
  then have "\<forall>z \<in> set ?ys. f y \<le> f z"
    unfolding ys by auto
  then have "\<forall>z \<in> set xs. f y \<le> f z" by simp
  moreover have "y \<in> set xs"
    using ys by (metis list.set_intros(1) set_sort)
  ultimately have "Min (f ` set xs) = f y"
    by (intro Min_eqI) auto
  then show ?thesis by (simp add: ys)
qed

lemma last_sorted_Max:
  assumes "sorted (map g xs)" and "xs \<noteq> []"
  shows "g (last xs) = Max (g ` set xs)"
proof -
  have "xs = butlast xs @ [last xs]" using assms(2) by simp
  then have "sorted (map g (butlast xs @ [last xs]))" using assms(1) by simp
  then have "\<forall>z \<in> set (butlast xs). g z \<le> g (last xs)"
    by (simp add: sorted_append)
  then have "\<forall>z \<in> set xs. g z \<le> g (last xs)"
    using assms(2) by (metis Un_iff append_butlast_last_id in_set_conv_decomp order_refl set_append self_append_conv2 set_ConsD empty_iff list.set(1))
  then have "Max (g ` set xs) = g (last xs)"
    using assms(2) by (intro Max_eqI) auto
  then show ?thesis by simp
qed

lemma chain_sorted_ends:
  assumes "contiguous bs" and "list_all (\<lambda>c. startTime c \<le> endTime c) bs"
  shows "sorted (map endTime bs)"
  using assms
proof (induction bs)
  case Nil
  show ?case by simp
next
  case (Cons b bs)
  from Cons.prems have wfs: "list_all (\<lambda>c. startTime c \<le> endTime c) bs" and cont: "contiguous bs"
    by (simp_all add: contiguous_Cons)
  from chain_later_starts [OF Cons.prems(1) wfs] wfs
  have "\<forall>c \<in> set bs. endTime b \<le> endTime c"
    by (fastforce simp: list_all_iff)
  with Cons.IH [OF cont wfs] show ?case by simp
qed

lemma handleMergeBeats_ids:
  "set ids' = set ids \<Longrightarrow> handleMergeBeats now ids' st = handleMergeBeats now ids st"
  by (simp add: handleMergeBeats_def Let_def)

lemma mergedBeat_end_Max:
  assumes "sorted (map startTime bs)" and "sorted (map endTime bs)"
      and "filter P bs \<noteq> []"
  shows "endTime (mergedBeat now (filter P bs)) = Max (endTime ` set (filter P bs))"
proof -
  have s1: "sorted (map startTime (filter P bs))"
    using assms(1) by (simp add: sorted_filter)
  have s2: "sorted (map endTime (filter P bs))"
    using assms(2) by (simp add: sorted_filter)
  show ?thesis
    unfolding mergedBeat_times_sorted(2) [OF s1]
    by (rule last_sorted_Max [OF s2 assms(3)])
qed

text \<open>
  Claim C3, as amended. When the ids select two beats at least, handleMergeBeats replaces
  the selected beats by one beat. Its startTime is the minimum of the selected
  startTimes. Its endTime is the endTime of the selected beat that comes last when the
  selection is sorted by startTime; that is the maximum of the selected endTimes when
  the beat list is in ascending order of both startTime and endTime, as every contiguous
  list of beats with \<open>startTime \<le> endTime\<close> is. The outcome depends on the set of
  ids only, not on their order or multiplicity.
\<close>

theorem merge_span:
  assumes "2 \<le> length (filter (\<lambda>b. idB b \<in> set ids) (beats st))"
  shows "let sel = filter (\<lambda>b. idB b \<in> set ids) (beats st);
             others = filter (\<lambda>b. idB b \<notin> set ids) (beats st);
             m = mergedBeat now sel
         in beats (handleMergeBeats now ids st) = sort_key startTime (others @ [m])
          \<and> startTime m = Min (startTime ` set sel)
          \<and> endTime m = endTime (last (sort_key startTime sel))
          \<and> (ordered (beats st) \<and> sorted (map endTime (beats st)) \<longrightarrow>
                endTime m = Max (endTime ` set sel))
          \<and> (contiguous (beats st) \<and> list_all (\<lambda>b. startTime b \<le> endTime b) (beats st) \<longrightarrow>
                endTime m = Max (endTime ` set sel))
          \<and> (set ids' = set ids \<longrightarrow>
                handleMergeBeats now ids' st = handleMergeBeats now ids st)"
proof -
  let ?sel = "filter (\<lambda>b. idB b \<in> set ids) (beats st)"
  from assms have ne: "?sel \<noteq> []" by auto
  have a: "beats (handleMergeBeats now ids st)
             = sort_key startTime (filter (\<lambda>b. idB b \<notin> set ids) (beats st)
                                    @ [mergedBeat now ?sel])"
    using assms by (simp add: handleMergeBeats_def Let_def)
  have b: "startTime (mergedBeat now ?sel) = Min (startTime ` set ?sel)"
    using hd_sort_key_Min [OF ne, of startTime] by (simp add: mergedBeat_def Let_def)
  have c: "endTime (mergedBeat now ?sel) = endTime (last (sort_key startTime ?sel))"
    by (simp add: mergedBeat_def Let_def)
  have d: "endTime (mergedBeat now ?sel) = Max (endTime ` set ?sel)"
    if "ordered (beats st)" "sorted (map endTime (beats st))"
    using that ne by (intro mergedBeat_end_Max) (simp_all add: ordered_def)
  have e: "endTime (mergedBeat now ?sel) = Max (endTime ` set ?sel)"
    if "contiguous (beats st)" "list_all (\<lambda>b. startTime b \<le> endTime b) (beats st)"
    using chain_ordered [OF that] chain_sorted_ends [OF that] d by simp
  have f: "handleMergeBeats now ids' st = handleMergeBeats now ids st" if "set ids' = set ids"
    using that by (rule handleMergeBeats_ids)
  show ?thesis
    unfolding Let_def using a b c d e f by blast
qed

theorem merge_span_witness:
  "length (filter (\<lambda>b. idB b \<in> set [''c'', ''a'']) threeBeats) = 2
   \<and> map (\<lambda>b. (startTime b, endTime b))
         (beats (handleMergeBeats 1 [''c'', ''a''] \<lparr>beats = threeBeats, status = ''''\<rparr>))
       = [(0, 3), (1, 2)]
   \<and> handleMergeBeats 1 [''a'', ''c'', ''a''] \<lparr>beats = threeBeats, status = ''''\<rparr>
       = handleMergeBeats 1 [''c'', ''a''] \<lparr>beats = threeBeats, status = ''''\<rparr>"
proof -
  let ?st = "\<lparr>beats = threeBeats, status = ''''\<rparr>"
  have two: "2 \<le> length (filter (\<lambda>b. idB b \<in> set [''c'', ''a'']) (beats ?st))"
    by (simp add: threeBeats_def beatAt_def scenarioBeat_def)
  note t = merge_span [OF two, where now = 1 and ids' = "[''a'', ''c'', ''a'']",
                       unfolded Let_def]
  have a: "handleMergeBeats 1 [''a'', ''c'', ''a''] ?st = handleMergeBeats 1 [''c'', ''a''] ?st"
    using t by auto
  have b: "length (filter (\<lambda>b. idB b \<in> set [''c'', ''a'']) threeBeats) = 2"
    by (simp add: threeBeats_def beatAt_def scenarioBeat_def)
  have c: "map (\<lambda>b. (startTime b, endTime b)) (beats (handleMergeBeats 1 [''c'', ''a''] ?st))
             = [(0, 3), (1, 2)]"
    by (simp add: eval_defs)
  show ?thesis using a b c by simp
qed

text \<open>
  Claim C3 as stated fails: the code never compares endTimes. After merging the first
  and third of three contiguous beats, the list holds the merged beat \<open>[0, 3)\<close> and the
  second beat \<open>[1, 2)\<close>; merging these two gives \<open>[0, 2)\<close>, not \<open>[0, 3)\<close>.
\<close>

theorem merge_span_counterexample:
  "let st1 = handleMergeBeats 1 [''a'', ''c''] \<lparr>beats = threeBeats, status = ''''\<rparr>;
       ids = [''b'', ''beat-merged-1''];
       sel = filter (\<lambda>b. idB b \<in> set ids) (beats st1);
       st2 = handleMergeBeats 2 ids st1
   in map (\<lambda>b. (idB b, startTime b, endTime b)) sel
        = [(''beat-merged-1'', 0, 3), (''b'', 1, 2)]
    \<and> Max (set (map endTime sel)) = 3
    \<and> map (\<lambda>b. (startTime b, endTime b)) (beats st2) = [(0, 2)]"
proof -
  let ?st1 = "handleMergeBeats 1 [''a'', ''c''] \<lparr>beats = threeBeats, status = ''''\<rparr>"
  let ?ids = "[''b'', ''beat-merged-1'']"
  let ?sel = "filter (\<lambda>b. idB b \<in> set ?ids) (beats ?st1)"
  have a: "map (\<lambda>b. (idB b, startTime b, endTime b)) ?sel
             = [(''beat-merged-1'', 0, 3), (''b'', 1, 2)]"
    by (simp add: eval_defs)
  have "map endTime ?sel
          = map (\<lambda>p. snd (snd p)) (map (\<lambda>b. (idB b, startTime b, endTime b)) ?sel)"
    by (simp add: comp_def)
  then have "map endTime ?sel = [3, 2]"
    unfolding a by simp
  then have b: "Max (set (map endTime ?sel)) = 3"
    by simp
  have c: "map (\<lambda>b. (startTime b, endTime b)) (beats (handleMergeBeats 2 ?ids ?st1))
             = [(0, 2)]"
    by (simp add: eval_defs)
  show ?thesis
    unfolding Let_def using a b c by blast
qed

subsection \<open>Fewer than two selected beats\<close>

text \<open>
  Claim C7. When the ids match fewer than two beats of the list, handleMergeBeats returns
  the state as it is: the beat list and the status message are unchanged. This is so in
  particular for fewer than two ids, the ids of the beats being unique. The model of
  handleMergeBeats has no error result: the source returns before anything else runs.
\<close>

theorem merge_precondition_noop:
  "(length (filter (\<lambda>b. idB b \<in> set ids) (beats st)) < 2 \<longrightarrow>
      handleMergeBeats now ids st = st)
   \<and> (length ids < 2 \<and> distinct (map idB (beats st)) \<longrightarrow>
      handleMergeBeats now ids st = st)"
proof (intro conjI impI)
  assume "length (filter (\<lambda>b. idB b \<in> set ids) (beats st)) < 2"
  then show "handleMergeBeats now ids st = st"
    by (simp add: handleMergeBeats_def Let_def)
next
  assume h: "length ids < 2 \<and> distinct (map idB (beats st))"
  have one: "length (filter (\<lambda>b. idB b = i) bs) \<le> 1" if "distinct (map idB bs)" for i bs
    using that by (induction bs) (auto simp: filter_empty_conv image_iff)
  have "length (filter (\<lambda>b. idB b \<in> set ids) (beats st)) < 2"
  proof (cases ids)
    case Nil
    then show ?thesis by simp
  next
    case (Cons i rest)
    with h have "ids = [i]" by (cases rest) auto
    then show ?thesis using one [of "beats st" i] h by simp
  qed
  then show "handleMergeBeats now ids st = st"
    by (simp add: handleMergeBeats_def Let_def)
qed

theorem merge_precondition_noop_witness:
  "handleMergeBeats 1 [''zzz'', ''a''] \<lparr>beats = threeBeats, status = ''ready''\<rparr>
     = \<lparr>beats = threeBeats, status = ''ready''\<rparr>
   \<and> handleMergeBeats 1 [''b''] \<lparr>beats = threeBeats, status = ''ready''\<rparr>
     = \<lparr>beats = threeBeats, status = ''ready''\<rparr>
   \<and> handleMergeBeats 1 [] \<lparr>beats = threeBeats, status = ''ready''\<rparr>
     = \<lparr>beats = threeBeats, status = ''ready''\<rparr>"
proof -
  let ?st = "\<lparr>beats = threeBeats, status = ''ready''\<rparr>"
  have d: "distinct (map idB (beats ?st))"
    by (simp add: threeBeats_def beatAt_def scenarioBeat_def)
  have one: "length (filter (\<lambda>b. idB b \<in> set [''zzz'', ''a'']) (beats ?st)) < 2"
    by (simp add: threeBeats_def beatAt_def scenarioBeat_def)
  have a: "handleMergeBeats 1 [''zzz'', ''a''] ?st = ?st"
    using merge_precondition_noop [of "[''zzz'', ''a'']" ?st 1] one by blast
  have b: "handleMergeBeats 1 [''b''] ?st = ?st"
    using merge_precondition_noop [of "[''b'']" ?st 1] d by simp
  have c: "handleMergeBeats 1 [] ?st = ?st"
    using merge_precondition_noop [of "[]" ?st 1] d by simp
  show ?thesis using a b c by simp
qed

section \<open>Properties of handleAnalyzeBeats\<close>




lemma assignTimes_Nil_iff [simp]: "(assignTimes t bs = []) = (bs = [])"
  by (cases bs) (simp_all add: Let_def)







section \<open>Properties of the WAV sample data\<close>

lemma clampSample_range: "- 1 \<le> clampSample v \<and> clampSample v \<le> 1"
  by (simp add: clampSample_def)

lemma toInt32_small:
  assumes "- 32768 \<le> v" and "v \<le> 32767"
  shows "toInt32 v = (if v < 0 then \<lceil>v\<rceil> else \<lfloor>v\<rfloor>)"
    and "- 32768 \<le> toInt32 v" and "toInt32 v \<le> 32767"
proof -
  let ?t = "if v < 0 then \<lceil>v\<rceil> else \<lfloor>v\<rfloor>"
  have lo: "- 32768 \<le> ?t"
    using assms by (auto simp: le_ceiling_iff le_floor_iff)
  have hi: "?t \<le> 32767"
    using assms by (auto simp: ceiling_le_iff floor_le_iff)
  have "(?t + 2 ^ 31) mod 2 ^ 32 = ?t + 2 ^ 31"
    using lo hi by (intro mod_pos_pos_trivial) simp_all
  then show eq: "toInt32 v = ?t"
    by (simp add: toInt32_def Let_def)
  show "- 32768 \<le> toInt32 v" using lo eq by simp
  show "toInt32 v \<le> 32767" using hi eq by simp
qed

lemma scaled_range:
  "- 32768 \<le> (if clampSample v < - 1 / 2 then clampSample v * 32768 else clampSample v * 32767)
   \<and> (if clampSample v < - 1 / 2 then clampSample v * 32768 else clampSample v * 32767) \<le> 32767"
  using clampSample_range [of v] by auto

lemma quantize_eq:
  "quantize v = toInt32 (if clampSample v < - 1 / 2 then clampSample v * 32768
                         else clampSample v * 32767)"
proof -
  have "(0.5 + clampSample v < 0) = (clampSample v < - 1 / 2)" by auto
  then show ?thesis by (simp add: quantize_def Let_def)
qed

lemma sint_setInt16:
  assumes "- 32768 \<le> n" and "n \<le> 32767"
  shows "sint (setInt16 n) = n"
proof -
  have "signed_take_bit 15 n = n"
    using assms by (intro signed_take_bit_int_eq_self) simp_all
  then show ?thesis
    by (simp add: setInt16_def sint_sbintrunc')
qed

lemma quantize_range:
  "quantize v = (if (if clampSample v < - 1 / 2 then clampSample v * 32768
                     else clampSample v * 32767) < 0
                 then \<lceil>if clampSample v < - 1 / 2 then clampSample v * 32768
                       else clampSample v * 32767\<rceil>
                 else \<lfloor>if clampSample v < - 1 / 2 then clampSample v * 32768
                       else clampSample v * 32767\<rfloor>)"
  "- 32768 \<le> quantize v" "quantize v \<le> 32767"
proof -
  let ?s = "if clampSample v < - 1 / 2 then clampSample v * 32768 else clampSample v * 32767"
  have r: "- 32768 \<le> ?s" "?s \<le> 32767"
    using scaled_range [of v] by simp_all
  show "quantize v = (if ?s < 0 then \<lceil>?s\<rceil> else \<lfloor>?s\<rfloor>)"
    unfolding quantize_eq by (rule toInt32_small(1) [OF r])
  show "- 32768 \<le> quantize v"
    unfolding quantize_eq by (rule toInt32_small(2) [OF r])
  show "quantize v \<le> 32767"
    unfolding quantize_eq by (rule toInt32_small(3) [OF r])
qed

lemma sint_quantize: "sint (setInt16 (quantize v)) = quantize v"
  by (rule sint_setInt16 [OF quantize_range(2) quantize_range(3)])

text \<open>
  Claim C5: every sample is clamped to \<open>[-1, 1]\<close> and quantized with the scale 32768 when
  it is negative and 32767 when it is positive, within the signed 16-bit range. The code
  keeps within the range (\<open>quantize_range\<close>, \<open>sint_quantize\<close>), but departs from the
  claim in two places. The test for the scale is \<open>0.5 + sample < 0\<close>: the negative sample
  \<open>-0.25\<close> is scaled by 32767 and stored as \<open>-8191\<close>, where the scale 32768 gives
  \<open>-8192\<close>. And the loop over the samples starts at position 44, where the header has
  left \<open>pos\<close>: of a channel of 47 frames only the last three are quantized, of a channel
  of two frames none.
\<close>

theorem wav_quantization_failing_input:
  "clampSample (- 1 / 4) = - 1 / 4
   \<and> quantize (- 1 / 4) = - 8191
   \<and> \<lceil>clampSample (- 1 / 4) * 32768\<rceil> = - 8192
   \<and> length sampleChannel = 47
   \<and> map sint (interleave [sampleChannel] 47) = [- 8191, 32767, - 24576]
   \<and> interleave [[- 1 / 4, 1 / 2]] 2 = []"
proof -
  have a: "clampSample (- 1 / 4) = - 1 / 4"
    by (simp add: clampSample_def)
  have c: "\<lceil>- (32767 / 4 :: real)\<rceil> = - 8191"
    by (simp add: ceiling_eq_iff)
  have "quantize (- 1 / 4) = toInt32 (- (32767 / 4))"
    by (simp add: quantize_def Let_def clampSample_def)
  also have "\<dots> = - 8191"
    by (simp add: toInt32_def Let_def c)
  finally have q1: "quantize (- 1 / 4) = - 8191" .
  have q2: "quantize (3 / 2) = 32767"
    by (simp add: quantize_def Let_def clampSample_def toInt32_def)
  have q3: "quantize (- 3 / 4) = - 24576"
    by (simp add: quantize_def Let_def clampSample_def toInt32_def)
  have idx: "[headerEnd..<47] = [44, 45, 46]"
    by (simp add: headerEnd_def upt_conv_Cons)
  have s: "sampleChannel ! 44 = - 1 / 4" "sampleChannel ! 45 = 3 / 2" "sampleChannel ! 46 = - 3 / 4"
    by (simp_all add: sampleChannel_def nth_append)
  have "map sint (interleave [sampleChannel] 47)
          = [quantize (- 1 / 4), quantize (3 / 2), quantize (- 3 / 4)]"
    by (simp add: interleave_def idx s sint_quantize)
  then have d: "map sint (interleave [sampleChannel] 47) = [- 8191, 32767, - 24576]"
    by (simp only: q1 q2 q3)
  have e: "interleave [[- 1 / 4, 1 / 2]] 2 = []"
    by (simp add: interleave_def headerEnd_def)
  have f: "length sampleChannel = 47"
    by (simp add: sampleChannel_def)
  show ?thesis
    using a q1 d e f by simp
qed

section \<open>Properties of the crop\<close>

text \<open>The A-roll gets what the B-roll band leaves of the canvas height.\<close>

lemma aRollCrop_coverCrop:
  "aRollCrop width canvasHeight videoWidth videoHeight b
     = coverCrop videoWidth videoHeight width
         (canvasHeight * (1 - splitHPercent b / 100)) (panPercent b)"
  by (simp add: aRollCrop_def Let_def algebra_simps)

text \<open>
  Claim C4. For a source of size \<open>sw \<times> sh\<close>, a target area of size \<open>tw \<times> th\<close> (all
  positive) and a pan percentage \<open>p\<close>: when \<open>sw / sh \<le> tw / th\<close> the crop keeps the full
  source width, has the height \<open>sw / (tw / th)\<close> and the vertical offset
  \<open>(sh - croppedHeight) * (p / 100)\<close>, which is 0 for \<open>p = 0\<close>,
  \<open>sh - croppedHeight\<close> for \<open>p = 100\<close> and the midpoint of the two for \<open>p = 50\<close>; when
  \<open>sw / sh > tw / th\<close> the crop keeps the full height, has the width \<open>sh * (tw / th)\<close> and
  is centred horizontally. A 1920 by 1080 source and a 1080 by 600 target area fall
  under the first case.
\<close>

theorem cover_crop:
  assumes "0 < sw" and "0 < sh" and "0 < tw" and "0 < th"
  shows "(sw / sh \<le> tw / th \<longrightarrow>
            cropW (coverCrop sw sh tw th p) = sw
          \<and> cropX (coverCrop sw sh tw th p) = 0
          \<and> cropH (coverCrop sw sh tw th p) = sw / (tw / th)
          \<and> cropY (coverCrop sw sh tw th p)
              = (sh - cropH (coverCrop sw sh tw th p)) * (p / 100)
          \<and> cropY (coverCrop sw sh tw th 0) = 0
          \<and> cropY (coverCrop sw sh tw th 100) = sh - cropH (coverCrop sw sh tw th 100)
          \<and> cropY (coverCrop sw sh tw th 50)
              = (cropY (coverCrop sw sh tw th 0) + cropY (coverCrop sw sh tw th 100)) / 2)
       \<and> (sw / sh > tw / th \<longrightarrow>
            cropH (coverCrop sw sh tw th p) = sh
          \<and> cropY (coverCrop sw sh tw th p) = 0
          \<and> cropW (coverCrop sw sh tw th p) = sh * (tw / th)
          \<and> cropX (coverCrop sw sh tw th p) = (sw - cropW (coverCrop sw sh tw th p)) / 2
          \<and> cropX (coverCrop sw sh tw th p) + cropW (coverCrop sw sh tw th p) / 2 = sw / 2)
       \<and> (sw = 1920 \<and> sh = 1080 \<and> tw = 1080 \<and> th = 600 \<longrightarrow>
            sw / sh \<le> tw / th
          \<and> cropH (coverCrop sw sh tw th p) = 3200 / 3
          \<and> cropY (coverCrop sw sh tw th 0) = 0
          \<and> cropY (coverCrop sw sh tw th 100) = sh - cropH (coverCrop sw sh tw th 100)
          \<and> cropY (coverCrop sw sh tw th 50) = (0 + (sh - cropH (coverCrop sw sh tw th 50))) / 2)"
proof (intro conjI impI)
  assume "sw / sh \<le> tw / th"
  then have tall: "\<not> sw / sh > tw / th" by simp
  show "cropW (coverCrop sw sh tw th p) = sw"
    and "cropX (coverCrop sw sh tw th p) = 0"
    and "cropH (coverCrop sw sh tw th p) = sw / (tw / th)"
    and "cropY (coverCrop sw sh tw th p) = (sh - cropH (coverCrop sw sh tw th p)) * (p / 100)"
    and "cropY (coverCrop sw sh tw th 0) = 0"
    and "cropY (coverCrop sw sh tw th 100) = sh - cropH (coverCrop sw sh tw th 100)"
    and "cropY (coverCrop sw sh tw th 50)
           = (cropY (coverCrop sw sh tw th 0) + cropY (coverCrop sw sh tw th 100)) / 2"
    using tall by (simp_all add: coverCrop_def Let_def)
next
  assume wide: "sw / sh > tw / th"
  show "cropH (coverCrop sw sh tw th p) = sh"
    and "cropY (coverCrop sw sh tw th p) = 0"
    and "cropW (coverCrop sw sh tw th p) = sh * (tw / th)"
    and "cropX (coverCrop sw sh tw th p) = (sw - cropW (coverCrop sw sh tw th p)) / 2"
    and "cropX (coverCrop sw sh tw th p) + cropW (coverCrop sw sh tw th p) / 2 = sw / 2"
    using wide by (simp_all add: coverCrop_def Let_def field_simps)
next
  assume c: "sw = 1920 \<and> sh = 1080 \<and> tw = 1080 \<and> th = 600"
  show "sw / sh \<le> tw / th"
    and "cropH (coverCrop sw sh tw th p) = 3200 / 3"
    and "cropY (coverCrop sw sh tw th 0) = 0"
    and "cropY (coverCrop sw sh tw th 100) = sh - cropH (coverCrop sw sh tw th 100)"
    and "cropY (coverCrop sw sh tw th 50) = (0 + (sh - cropH (coverCrop sw sh tw th 50))) / 2"
    using c by (simp_all add: coverCrop_def Let_def)
qed

theorem cover_crop_witness:
  "cropW (coverCrop 1920 1080 1080 600 50) = 1920
   \<and> cropH (coverCrop 1920 1080 1080 600 50) = 3200 / 3
   \<and> cropY (coverCrop 1920 1080 1080 600 50) = 20 / 3
   \<and> cropY (coverCrop 1920 1080 1080 600 0) = 0
   \<and> cropY (coverCrop 1920 1080 1080 600 100) = 40 / 3
   \<and> cropH (coverCrop 1920 1080 1080 1920 50) = 1080
   \<and> cropW (coverCrop 1920 1080 1080 1920 50) = 1215 / 2
   \<and> cropX (coverCrop 1920 1080 1080 1920 50) = 2625 / 4"
proof -
  have pos: "(0::real) < 1920" "(0::real) < 1080" "(0::real) < 600" by simp_all
  note tall = cover_crop [OF pos(1) pos(2) pos(2) pos(3), of 50]
  note wide = cover_crop [OF pos(1) pos(2) pos(2) pos(1), of 50]
  have a: "(1920::real) / 1080 \<le> 1080 / 600" by simp
  have b: "(1920::real) / 1080 > 1080 / 1920" by simp
  from tall a have
    "cropW (coverCrop 1920 1080 1080 600 50) = 1920"
    "cropH (coverCrop 1920 1080 1080 600 50) = 1920 / (1080 / 600)"
    "cropY (coverCrop 1920 1080 1080 600 50)
       = (1080 - cropH (coverCrop 1920 1080 1080 600 50)) * (50 / 100)"
    "cropY (coverCrop 1920 1080 1080 600 0) = 0"
    "cropY (coverCrop 1920 1080 1080 600 100) = 1080 - cropH (coverCrop 1920 1080 1080 600 100)"
    by blast+
  moreover have "cropH (coverCrop 1920 1080 1080 600 100) = 3200 / 3"
    by (simp add: coverCrop_def Let_def)
  moreover from wide b have
    "cropH (coverCrop 1920 1080 1080 1920 50) = 1080"
    "cropW (coverCrop 1920 1080 1080 1920 50) = 1080 * (1080 / 1920)"
    "cropX (coverCrop 1920 1080 1080 1920 50)
       = (1920 - cropW (coverCrop 1920 1080 1080 1920 50)) / 2"
    by blast+
  ultimately show ?thesis by simp
qed

section \<open>Properties of the progress reports\<close>

lemma cap_le: "min 0.99 (v::real) \<le> 0.99"
  by (rule min.cobounded1)

lemma cap_mono: "v \<le> w \<Longrightarrow> min 0.99 v \<le> min 0.99 (w::real)"
  by (rule min.mono) simp_all

lemma renderFrame_reported:
  "reported (renderFrame video st)
     = reported st @
       (if recording st \<and> \<not> (paused video \<and> \<not> ended video) \<and> duration video > 0
        then [min 0.99 (currentTime video / duration video)] else [])"
  by (simp add: renderFrame_def)

lemma renderFrame_recording [simp]: "recording (renderFrame video st) = recording st"
  by (simp add: renderFrame_def)

lemma runExport_Nil [simp]: "runExport [] st = st"
  by (simp add: runExport_def)

lemma runExport_Cons [simp]: "runExport (ev # events) st = runExport events (handleEvent ev st)"
  by (simp add: runExport_def)

lemma runExport_append: "runExport (xs @ ys) st = runExport ys (runExport xs st)"
  by (simp add: runExport_def)

lemma runExport_stopped: "\<not> recording st \<Longrightarrow> runExport events st = st"
proof (induction events)
  case Nil
  show ?case by simp
next
  case (Cons ev events)
  then show ?case
    by (cases ev) (simp_all add: renderFrame_def onended_def)
qed

lemma runExport_frames_bound:
  assumes "Ended \<notin> set events" and "recording st"
  shows "recording (runExport events st)
       \<and> (\<exists>vs. reported (runExport events st) = reported st @ vs
                \<and> list_all (\<lambda>v. v \<le> 0.99) vs)"
  using assms
proof (induction events arbitrary: st)
  case Nil
  then show ?case by simp
next
  case (Cons ev events)
  then obtain video where ev: "ev = Frame video" by (cases ev) auto
  let ?st = "renderFrame video st"
  from Cons.prems have "Ended \<notin> set events" and rec: "recording ?st" by simp_all
  from Cons.IH [OF this] obtain vs where
    r: "recording (runExport events ?st)"
    and vs: "reported (runExport events ?st) = reported ?st @ vs" "list_all (\<lambda>v. v \<le> 0.99) vs"
    by blast
  let ?w = "if recording st \<and> \<not> (paused video \<and> \<not> ended video) \<and> duration video > 0
            then [min 0.99 (currentTime video / duration video)] else []"
  have "reported (runExport (ev # events) st) = reported st @ (?w @ vs)"
    using vs(1) by (simp add: ev renderFrame_reported)
  moreover have "list_all (\<lambda>v. v \<le> 0.99) (?w @ vs)"
    using vs(2) cap_le [of "currentTime video / duration video"] by simp
  ultimately show ?case
    using r ev by (simp only: runExport_Cons handleEvent.simps) blast
qed

lemma runExport_frames_values:
  assumes "Ended \<notin> set events" and "recording st"
      and "list_all (\<lambda>video. duration video = d) (readings events)"
  shows "reported (runExport events st) = reported st @ frameValues d (readings events)"
  using assms
proof (induction events arbitrary: st)
  case Nil
  then show ?case by (simp add: frameValues_def)
next
  case (Cons ev events)
  then obtain video where ev: "ev = Frame video" by (cases ev) auto
  from Cons.prems ev have d: "duration video = d"
    and rest: "list_all (\<lambda>video. duration video = d) (readings events)"
    and ne: "Ended \<notin> set events" and rec: "recording (renderFrame video st)"
    by simp_all
  show ?case
    using Cons.IH [OF ne rec rest] Cons.prems(2) d
    by (simp add: ev renderFrame_reported frameValues_def)
qed

lemma sorted_frameValues:
  assumes "sorted (map currentTime rs)"
  shows "sorted (frameValues d rs)"
proof (cases "d > 0")
  case False
  then show ?thesis by (simp add: frameValues_def)
next
  case True
  have "sorted (map (\<lambda>video. min 0.99 (currentTime video / d)) (filter P rs))" for P
    using assms
  proof (induction rs)
    case Nil
    show ?case by simp
  next
    case (Cons r rs)
    then have le: "\<forall>x \<in> set rs. currentTime r \<le> currentTime x" and s: "sorted (map currentTime rs)"
      by simp_all
    have "\<forall>x \<in> set rs. min 0.99 (currentTime r / d) \<le> min 0.99 (currentTime x / d)"
    proof
      fix x assume "x \<in> set rs"
      with le have "currentTime r \<le> currentTime x" by simp
      then have "currentTime r / d \<le> currentTime x / d"
        using True by (simp add: divide_right_mono)
      then show "min 0.99 (currentTime r / d) \<le> min 0.99 (currentTime x / d)"
        by (rule cap_mono)
    qed
    with Cons.IH [OF s] show ?case by auto
  qed
  then show ?thesis using True by (simp add: frameValues_def)
qed

lemma frameValues_bound: "list_all (\<lambda>v. v \<le> 0.99) (frameValues d rs)"
  unfolding frameValues_def list_all_iff using cap_le by auto

lemma readings_append: "readings (xs @ ys) = readings xs @ readings ys"
  by (induction xs rule: readings.induct) simp_all

lemma runExport_ended:
  assumes "Ended \<notin> set events"
  shows "reported (runExport (events @ Ended # later) exportStart)
           = reported (runExport events exportStart) @ [1]"
proof -
  have rec: "recording exportStart" by (simp add: exportStart_def)
  from runExport_frames_bound [OF assms rec]
  have r: "recording (runExport events exportStart)" by simp
  have "runExport (events @ Ended # later) exportStart
          = runExport later (onended (runExport events exportStart))"
    by (simp add: runExport_append)
  also have "\<dots> = onended (runExport events exportStart)"
    using r by (intro runExport_stopped) (simp add: onended_def)
  finally show ?thesis using r by (simp add: onended_def)
qed

lemma runExport_sorted:
  assumes "playsForward d events"
  shows "sorted (reported (runExport events exportStart))"
proof -
  have rec: "recording exportStart" by (simp add: exportStart_def)
  have frames: "sorted (reported (runExport pre exportStart))
                \<and> list_all (\<lambda>v. v \<le> 0.99) (reported (runExport pre exportStart))"
    if "Ended \<notin> set pre" "playsForward d pre" for pre
  proof -
    from that(2) have s: "sorted (map currentTime (readings pre))"
      and c: "list_all (\<lambda>video. duration video = d) (readings pre)"
      by (simp_all add: playsForward_def)
    have "reported (runExport pre exportStart) = frameValues d (readings pre)"
      using runExport_frames_values [OF that(1) rec c] by (simp add: exportStart_def)
    then show ?thesis
      using sorted_frameValues [OF s] frameValues_bound by simp
  qed
  show ?thesis
  proof (cases "Ended \<in> set events")
    case False
    then show ?thesis using frames assms by simp
  next
    case True
    then obtain pre later where ev: "events = pre @ Ended # later" and ne: "Ended \<notin> set pre"
      by (auto dest: split_list_first)
    from assms have "playsForward d pre"
      by (simp add: ev playsForward_def readings_append sorted_append)
    from frames [OF ne this] have "sorted (reported (runExport pre exportStart) @ [1])"
      by (auto simp: sorted_append list_all_iff)
    then show ?thesis
      by (simp add: ev runExport_ended [OF ne])
  qed
qed

text \<open>
  Claim C6. A frame reports progress only while the recorder is active, the video is not
  paused before its end, and the duration is greater than 0; the value it reports is
  \<open>min 0.99 (currentTime / duration)\<close>. Until the end-of-media signal fires, every
  reported value is below 1. When the signal fires, exactly 1 is reported next, and
  nothing after it. When playback runs forward (the frames read a current time that never
  decreases, and one duration), the reported values never decrease.
\<close>

theorem export_progress:
  "reported (renderFrame video st)
     = reported st @
       (if recording st \<and> \<not> (paused video \<and> \<not> ended video) \<and> duration video > 0
        then [min 0.99 (currentTime video / duration video)] else [])
   \<and> (Ended \<notin> set events \<longrightarrow>
        list_all (\<lambda>v. v < 1) (reported (runExport events exportStart)))
   \<and> (Ended \<notin> set events \<longrightarrow>
        reported (runExport (events @ Ended # later) exportStart)
          = reported (runExport events exportStart) @ [1])
   \<and> (playsForward d events \<longrightarrow> sorted (reported (runExport events exportStart)))"
proof (intro conjI impI)
  show "reported (renderFrame video st)
     = reported st @
       (if recording st \<and> \<not> (paused video \<and> \<not> ended video) \<and> duration video > 0
        then [min 0.99 (currentTime video / duration video)] else [])"
    by (rule renderFrame_reported)
next
  assume ne: "Ended \<notin> set events"
  have rec: "recording exportStart" by (simp add: exportStart_def)
  from runExport_frames_bound [OF ne rec]
  have "list_all (\<lambda>v. v \<le> 0.99) (reported (runExport events exportStart))"
    by (auto simp: exportStart_def)
  then show "list_all (\<lambda>v. v < 1) (reported (runExport events exportStart))"
    by (auto simp: list_all_iff)
next
  assume "Ended \<notin> set events"
  then show "reported (runExport (events @ Ended # later) exportStart)
          = reported (runExport events exportStart) @ [1]"
    by (rule runExport_ended)
next
  assume "playsForward d events"
  then show "sorted (reported (runExport events exportStart))"
    by (rule runExport_sorted)
qed

theorem export_progress_witness:
  "reported (runExport sampleFrames exportStart) = [1 / 4, 99 / 100]
   \<and> list_all (\<lambda>v. v < 1) (reported (runExport sampleFrames exportStart))
   \<and> reported (runExport (sampleFrames @ Ended # [frameAt 4 False True]) exportStart)
       = [1 / 4, 99 / 100, 1]
   \<and> sorted (reported (runExport (sampleFrames @ Ended # [frameAt 4 False True]) exportStart))
   \<and> reported (renderFrame \<lparr>paused = False, ended = False, currentTime = 1, duration = 0\<rparr>
                 exportStart) = []"
proof -
  let ?late = "[frameAt 4 False True]"
  note t = export_progress [where events = sampleFrames and later = ?late and d = 4]
  note u = export_progress [where events = "sampleFrames @ Ended # ?late" and d = 4]
  have ne: "Ended \<notin> set sampleFrames"
    by (simp add: sampleFrames_def frameAt_def)
  have fw: "playsForward 4 (sampleFrames @ Ended # ?late)"
    by (simp add: playsForward_def sampleFrames_def frameAt_def)
  have a: "reported (runExport sampleFrames exportStart) = [1 / 4, 99 / 100]"
    by (simp add: sampleFrames_def frameAt_def exportStart_def renderFrame_def)
  have b: "list_all (\<lambda>v. v < 1) (reported (runExport sampleFrames exportStart))"
    using t ne by blast
  have c: "reported (runExport (sampleFrames @ Ended # ?late) exportStart)
             = reported (runExport sampleFrames exportStart) @ [1]"
    using t ne by blast
  have d: "sorted (reported (runExport (sampleFrames @ Ended # ?late) exportStart))"
    using u fw by blast
  have e: "reported (renderFrame \<lparr>paused = False, ended = False, currentTime = 1, duration = 0\<rparr>
                 exportStart) = []"
    by (simp add: renderFrame_def exportStart_def)
  show ?thesis
    using a b c d e by simp
qed

end
